theory Spec2Isabelle
  imports Main
begin

section \<open>Python strings\<close>

text \<open>
  A Python \<open>str\<close> is a sequence of Unicode code points, and the program compares
  \<open>ord(c)\<close> with 127 and with 255. An Isabelle \<open>char\<close> is a byte, so a string of the
  program is a list of code points here; \<open>ustr\<close> reads an ASCII literal.
\<close>

type_synonym pystr = "nat list"

definition ustr :: "string \<Rightarrow> pystr" where
  "ustr s = map of_char s"

text \<open>
  \<open>str.splitlines()\<close>: the line boundaries of CPython are the code points below, and
  carriage return followed by line feed is one boundary. The text after the last boundary
  is a line only when it is not empty, so the empty string has no line.
\<close>

definition is_linebreak :: "nat \<Rightarrow> bool" where
  "is_linebreak c \<longleftrightarrow> c \<in> set [10, 11, 12, 13, 28, 29, 30, 133, 8232, 8233]"

fun splitlines_from :: "pystr \<Rightarrow> pystr \<Rightarrow> pystr list" where
  "splitlines_from cur [] = (if cur = [] then [] else [cur])"
| "splitlines_from cur [c] =
     (if is_linebreak c then [cur] else [cur @ [c]])"
| "splitlines_from cur (c # d # s) =
     (if is_linebreak c then
        (if c = 13 \<and> d = 10 then cur # splitlines_from [] s
         else cur # splitlines_from [] (d # s))
      else splitlines_from (cur @ [c]) (d # s))"

definition splitlines :: "pystr \<Rightarrow> pystr list" where
  "splitlines s = splitlines_from [] s"

text \<open>
  \<open>str.strip()\<close> without argument removes leading and trailing white space, which for
  \<open>str\<close> is the set of code points below (\<open>str.isspace\<close>).
\<close>

definition is_space :: "nat \<Rightarrow> bool" where
  "is_space c \<longleftrightarrow>
     (9 \<le> c \<and> c \<le> 13) \<or> (28 \<le> c \<and> c \<le> 32) \<or> c = 133 \<or> c = 160 \<or> c = 5760 \<or>
     (8192 \<le> c \<and> c \<le> 8202) \<or> c = 8232 \<or> c = 8233 \<or> c = 8239 \<or> c = 8287 \<or> c = 12288"

definition strip :: "pystr \<Rightarrow> pystr" where
  "strip s = rev (dropWhile is_space (rev (dropWhile is_space s)))"

text \<open>
  \<open>str.lower()\<close> is used only in the comparison \<open>txt.lower() == 'none'\<close>. On ASCII it
  moves \<open>A\<close> to \<open>Z\<close> onto \<open>a\<close> to \<open>z\<close>. Outside ASCII it follows the Unicode tables,
  where no code point has \<open>n\<close>, \<open>o\<close> or \<open>e\<close> in its lower case, so leaving those code
  points as they are decides the comparison as Python does.
\<close>

definition lower :: "pystr \<Rightarrow> pystr" where
  "lower s = map (\<lambda>c. if 65 \<le> c \<and> c \<le> 90 then c + 32 else c) s"

text \<open>\<open>line.startswith(">")\<close>, \<open>sep.join(lines)\<close> and the two \<open>replace\<close> calls.\<close>

definition startswith_gt :: "pystr \<Rightarrow> bool" where
  "startswith_gt line = (case line of [] \<Rightarrow> False | c # _ \<Rightarrow> c = 62)"

fun join :: "pystr \<Rightarrow> pystr list \<Rightarrow> pystr" where
  "join sep [] = []"
| "join sep [l] = l"
| "join sep (l # m # ls) = l @ sep @ join sep (m # ls)"

definition remove_char :: "nat \<Rightarrow> pystr \<Rightarrow> pystr" where
  "remove_char c s = filter (\<lambda>d. d \<noteq> c) s"


section \<open>The FASTA checks\<close>

text \<open>
  An issue is the dictionary the checks append: \<open>'Issue Number'\<close>, \<open>'Line Number'\<close> and
  \<open>'Issue'\<close>. The message is kept structured: which of the four texts it is, and for the
  two character checks the character and the position that the text quotes.
\<close>

datatype issue_text =
    NonAscii nat nat
      \<comment> \<open>"Invalid character in sequence header: 'char' at position pos"\<close>
  | InvalidSequenceChar nat nat
      \<comment> \<open>"Invalid character in sequence: 'char' at position pos"\<close>
  | Gap
      \<comment> \<open>"Gap (space or tab) in sequence"\<close>
  | BlankLine
      \<comment> \<open>"Blank line found"\<close>

record issue =
  issue_number :: nat
  line_number :: nat
  issue :: issue_text

text \<open>
  The list \<open>issues\<close> is passed by reference and appended to; here each check takes the list
  and returns it updated. A \<open>for i, x in enumerate(xs)\<close> loop is a \<open>fold\<close> over
  \<open>enumerate 0 xs\<close>. The statement \<open>line_num += 1\<close> that ends the loop body of
  \<open>check_non_ascii\<close> changes a variable that the next iteration assigns again and that
  nothing reads in between, so it has no counterpart here.
\<close>

definition check_non_ascii :: "pystr \<Rightarrow> issue list \<Rightarrow> issue list" where
  "check_non_ascii file_content issues =
     fold (\<lambda>(line_num, line).
        fold (\<lambda>(idx, char) issues.
           if char > 127 then
             issues @ [\<lparr>issue_number = length issues + 1, line_number = line_num,
                        issue = NonAscii char (idx + 1)\<rparr>]
           else issues)
          (enumerate 0 line))
       (enumerate 0 (splitlines file_content)) issues"

definition valid_chars :: pystr where
  "valid_chars = ustr ''AaTtCcGgNn()''"

definition check_valid_sequence :: "pystr \<Rightarrow> issue list \<Rightarrow> issue list" where
  "check_valid_sequence file_content issues =
     fold (\<lambda>(line_num, line) issues.
        if startswith_gt line \<or> strip line = [] then issues
        else
          (let sequence = remove_char 9 (remove_char 32 (strip line)) in
           fold (\<lambda>(idx, char) issues.
              if char \<notin> set valid_chars then
                issues @ [\<lparr>issue_number = length issues + 1, line_number = line_num + 1,
                           issue = InvalidSequenceChar char (idx + 1)\<rparr>]
              else issues)
             (enumerate 0 sequence) issues))
       (enumerate 0 (splitlines file_content)) issues"

definition check_gaps :: "pystr \<Rightarrow> issue list \<Rightarrow> issue list" where
  "check_gaps file_content issues =
     fold (\<lambda>(line_num, line) issues.
        if startswith_gt line \<or> strip line = [] then issues
        else if 32 \<in> set line \<or> 9 \<in> set line then
          issues @ [\<lparr>issue_number = length issues + 1, line_number = line_num + 1,
                     issue = Gap\<rparr>]
        else issues)
       (enumerate 0 (splitlines file_content)) issues"

definition check_blank_lines :: "pystr \<Rightarrow> issue list \<Rightarrow> issue list" where
  "check_blank_lines file_content issues =
     fold (\<lambda>(line_num, line) issues.
        if strip line = [] then
          issues @ [\<lparr>issue_number = length issues + 1, line_number = line_num + 1,
                     issue = BlankLine\<rparr>]
        else issues)
       (enumerate 0 (splitlines file_content)) issues"

definition check_fasta_file :: "pystr \<Rightarrow> issue list" where
  "check_fasta_file file_content =
     check_blank_lines file_content
       (check_gaps file_content
         (check_valid_sequence file_content
           (check_non_ascii file_content [])))"

section \<open>The conversion in \<open>main\<close>\<close>

text \<open>
  The table is the list of rows read from the sheet, every cell turned into a string
  (an empty cell of the sheet reads \<open>None\<close>, hence the string \<open>''None''\<close>).
\<close>

type_synonym table = "pystr list list"

text \<open>
  Screening, lines 190 to 197: three nested \<open>enumerate\<close> loops that write one message for
  every character above 255 and set \<open>illegal_chars_seen\<close>. A message is kept as the values
  it prints: row, column and character (all counted from 1), the code point, and the text
  of the cell. The state of the loops is the list of messages written so far and the flag.
\<close>

record locator =
  loc_row :: nat
  loc_column :: nat
  loc_character :: nat
  loc_symbol :: nat
  loc_cell :: pystr

type_synonym screen_state = "locator list \<times> bool"

definition screen_cells :: "table \<Rightarrow> screen_state" where
  "screen_cells table =
     fold (\<lambda>(i, row).
        fold (\<lambda>(j, col).
           fold (\<lambda>(k, c) (written, illegal_chars_seen).
              if c > 255 then
                (written @ [\<lparr>loc_row = i + 1, loc_column = j + 1, loc_character = k + 1,
                              loc_symbol = c, loc_cell = col\<rparr>], True)
              else (written, illegal_chars_seen))
             (enumerate 0 col))
          (enumerate 0 row))
       (enumerate 0 table) ([], False)"

text \<open>
  Serialization, lines 206 to 225. The state of the two loops is the flag \<open>header_blank\<close>
  and the list \<open>fasta_contents\<close>; \<open>cell_step\<close> is the body of the inner loop.
\<close>

type_synonym ser_state = "bool \<times> pystr list"

fun cell_step :: "nat \<times> pystr \<Rightarrow> ser_state \<Rightarrow> ser_state" where
  "cell_step (j, col) (header_blank, fasta_contents) =
     (let txt = strip col;
          txt = (if lower txt = ustr ''none'' then [] else txt)
      in if j mod 2 = 0 then
           (if txt = [] then (True, fasta_contents)
            else (False, fasta_contents @ [62 # txt]))
         else
           (if \<not> header_blank then (header_blank, fasta_contents @ [txt])
            else (header_blank, fasta_contents)))"

definition row_loop :: "pystr list \<Rightarrow> ser_state \<Rightarrow> ser_state" where
  "row_loop row st = fold cell_step (enumerate 0 row) st"

definition table_loop :: "table \<Rightarrow> ser_state \<Rightarrow> ser_state" where
  "table_loop table st = fold row_loop table st"

text \<open>
  What \<open>main\<close> has computed when it reaches the decision to save. The upload is absent,
  or not a workbook (\<open>load_workbook\<close> raises and \<open>legit_file\<close> becomes false), or gives a
  table. \<open>fasta_str\<close> and \<open>issues\<close> are bound only inside the branches that compute them:
  \<open>None\<close> is the variable left unbound because its branch did not run. Without a table
  the screening does not run either, and \<open>illegal_chars_seen\<close>, not assigned then, is
  recorded as false. Of the messages written, the record keeps those of the screening
  loops; the request to correct the characters that follows them, the display of the
  issues, and writing the file after \<open>okay_to_save\<close> are not part of the model.
\<close>

datatype upload = NoFile | NotXlsx | Sheet table

record outcome =
  written :: "locator list"
  illegal_chars_seen :: bool
  format_as_fasta :: bool
  fasta_contents :: "pystr list"
  fasta_str :: "pystr option"
  issues :: "issue list option"
  okay_to_save :: bool

definition main :: "upload \<Rightarrow> outcome" where
  "main uploaded_file =
     (let table = (case uploaded_file of Sheet t \<Rightarrow> t | _ \<Rightarrow> []);
          (written, illegal_chars_seen) =
            (case uploaded_file of Sheet t \<Rightarrow> screen_cells t | _ \<Rightarrow> ([], False));
          format_as_fasta =
            (case uploaded_file of Sheet t \<Rightarrow> \<not> illegal_chars_seen | _ \<Rightarrow> False);
          start = \<lparr>written = written, illegal_chars_seen = illegal_chars_seen,
                    format_as_fasta = format_as_fasta, fasta_contents = [],
                    fasta_str = None, issues = None, okay_to_save = False\<rparr>
      in if format_as_fasta \<and> table \<noteq> [] then
           (let (header_blank, fasta_contents) = table_loop table (False, []);
                fasta_str = join [10] fasta_contents;
                serialized = start\<lparr>fasta_contents := fasta_contents,
                                     fasta_str := Some fasta_str\<rparr>
            in if fasta_contents \<noteq> [] then
                 (let issues = check_fasta_file fasta_str
                  in serialized\<lparr>issues := Some issues, okay_to_save := (issues = [])\<rparr>)
               else serialized)
         else start)"


section \<open>The checks as lists of findings\<close>

text \<open>
  For the proofs, each check is described by the list of its findings, a line number and
  a message each, in the order of the scan; \<open>numbered k\<close> gives the findings the issue
  numbers \<open>k + 1\<close>, \<open>k + 2\<close> and so on, as \<open>len(issues)+1\<close> does when \<open>issues\<close> holds
  \<open>k\<close> entries. These definitions follow the four loops; the lemmas below prove that the
  checks compute them.
\<close>

definition numbered :: "nat \<Rightarrow> (nat \<times> issue_text) list \<Rightarrow> issue list" where
  "numbered k fs =
     map (\<lambda>(i, l, t). \<lparr>issue_number = i + 1, line_number = l, issue = t\<rparr>) (enumerate k fs)"

definition non_ascii_found :: "pystr list \<Rightarrow> (nat \<times> issue_text) list" where
  "non_ascii_found lines =
     concat (map (\<lambda>(n, line).
        concat (map (\<lambda>(k, c). if c > 127 then [(n, NonAscii c (k + 1))] else [])
          (enumerate 0 line)))
       (enumerate 0 lines))"

definition valid_sequence_found :: "pystr list \<Rightarrow> (nat \<times> issue_text) list" where
  "valid_sequence_found lines =
     concat (map (\<lambda>(n, line).
        if startswith_gt line \<or> strip line = [] then []
        else concat (map (\<lambda>(k, c).
               if c \<notin> set valid_chars then [(n + 1, InvalidSequenceChar c (k + 1))] else [])
          (enumerate 0 (remove_char 9 (remove_char 32 (strip line))))))
       (enumerate 0 lines))"

definition gaps_found :: "pystr list \<Rightarrow> (nat \<times> issue_text) list" where
  "gaps_found lines =
     concat (map (\<lambda>(n, line).
        if startswith_gt line \<or> strip line = [] then []
        else if 32 \<in> set line \<or> 9 \<in> set line then [(n + 1, Gap)] else [])
       (enumerate 0 lines))"

definition blank_lines_found :: "pystr list \<Rightarrow> (nat \<times> issue_text) list" where
  "blank_lines_found lines =
     concat (map (\<lambda>(n, line). if strip line = [] then [(n + 1, BlankLine)] else [])
       (enumerate 0 lines))"

text \<open>
  The screening loops in the same way: the list of the messages they write, one for every
  character above 255, in the order of the scan.
\<close>

definition illegal_found :: "table \<Rightarrow> locator list" where
  "illegal_found table =
     concat (map (\<lambda>(i, row).
        concat (map (\<lambda>(j, col).
           concat (map (\<lambda>(k, c).
              if c > 255 then
                [\<lparr>loc_row = i + 1, loc_column = j + 1, loc_character = k + 1,
                   loc_symbol = c, loc_cell = col\<rparr>]
              else [])
             (enumerate 0 col)))
          (enumerate 0 row)))
       (enumerate 0 table))"

text \<open>
  The lines that the loops of \<open>main\<close> add, row by row, for the proofs about them:
  \<open>row_lines\<close> follows the inner loop through a row two cells at a time, and a name cell
  left without partner at the end of a row adds its header, as the loop does.
\<close>

definition cell_text :: "pystr \<Rightarrow> pystr" where
  "cell_text col = (let txt = strip col in if lower txt = ustr ''none'' then [] else txt)"

fun row_lines :: "pystr list \<Rightarrow> pystr list" where
  "row_lines (name # sequence # rest) =
     (if cell_text name = [] then row_lines rest
      else (62 # cell_text name) # cell_text sequence # row_lines rest)"
| "row_lines [name] = (if cell_text name = [] then [] else [62 # cell_text name])"
| "row_lines [] = []"

definition table_lines :: "table \<Rightarrow> pystr list" where
  "table_lines table = concat (map row_lines table)"

text \<open>
  The serializer as the specification describes it (section 4.2 and the design notes), for
  the comparison with the loops of \<open>main\<close>. Each row is taken pair by pair. For a pair,
  the name is trimmed and \<open>none\<close> in any letter case becomes empty; \<open>header_blank\<close> is
  computed from this name alone; the name line is emitted when \<open>header_blank\<close> is false,
  and the sequence, trimmed the same way, is emitted when \<open>header_blank\<close> of its own pair
  is false. A cell left without partner at the end of a row is ignored.
\<close>

fun row_pairs :: "pystr list \<Rightarrow> pystr list" where
  "row_pairs (name # sequence # rest) =
     (let header_blank = (cell_text name = [])
      in (if header_blank then [] else [62 # cell_text name]) @
         (if header_blank then [] else [cell_text sequence]) @
         row_pairs rest)"
| "row_pairs [name] = []"
| "row_pairs [] = []"

definition pairwise_contents :: "table \<Rightarrow> pystr list" where
  "pairwise_contents table = concat (map row_pairs table)"

text \<open>
  The lines of a text as the serializer joins them (\<open>'\n'.join\<close>, line 226): the parts
  between line feeds, as \<open>str.split('\n')\<close> gives them. The checks do not split the text
  this way but with \<open>splitlines\<close>, which breaks at other characters too.
\<close>

fun split_lf :: "pystr \<Rightarrow> pystr \<Rightarrow> pystr list" where
  "split_lf cur [] = [cur]"
| "split_lf cur (c # s) = (if c = 10 then cur # split_lf [] s else split_lf (cur @ [c]) s)"

definition lf_lines :: "pystr \<Rightarrow> pystr list" where
  "lf_lines s = split_lf [] s"


section \<open>Evaluation\<close>

lemmas string_defs =
  ustr_def splitlines_def is_linebreak_def is_space_def strip_def lower_def
  startswith_gt_def remove_char_def valid_chars_def

lemmas check_defs =
  check_fasta_file_def check_non_ascii_def check_valid_sequence_def check_gaps_def
  check_blank_lines_def

lemmas main_defs =
  main_def screen_cells_def table_loop_def row_loop_def Let_def


section \<open>Numbering and findings\<close>

lemma numbered_Nil [simp]: "numbered k [] = []"
  by (simp add: numbered_def)

lemma numbered_append:
  "numbered k (fs @ gs) = numbered k fs @ numbered (k + length fs) gs"
  by (simp add: numbered_def enumerate_append_eq)

lemma length_numbered [simp]: "length (numbered k fs) = length fs"
  by (simp add: numbered_def)

lemma numbered_single:
  "numbered k [(l, t)] = [\<lparr>issue_number = k + 1, line_number = l, issue = t\<rparr>]"
  by (simp add: numbered_def)

lemma fold_appends:
  assumes "\<And>x acc. x \<in> set xs \<Longrightarrow> f x acc = acc @ numbered (length acc) (g x)"
  shows "fold f xs acc = acc @ numbered (length acc) (concat (map g xs))"
  using assms
proof (induction xs arbitrary: acc)
  case Nil
  then show ?case by simp
next
  case (Cons x xs)
  have "fold f (x # xs) acc = fold f xs (f x acc)" by simp
  also have "f x acc = acc @ numbered (length acc) (g x)"
    using Cons.prems by simp
  also have "fold f xs (acc @ numbered (length acc) (g x)) =
      (acc @ numbered (length acc) (g x)) @
        numbered (length (acc @ numbered (length acc) (g x))) (concat (map g xs))"
    using Cons.prems by (intro Cons.IH) simp
  finally show ?case
    by (simp add: numbered_append)
qed

lemma check_non_ascii_eq:
  "check_non_ascii s iss = iss @ numbered (length iss) (non_ascii_found (splitlines s))"
  unfolding check_non_ascii_def non_ascii_found_def
  by (intro fold_appends) (auto simp: numbered_single intro!: fold_appends)

lemma check_valid_sequence_eq:
  "check_valid_sequence s iss =
     iss @ numbered (length iss) (valid_sequence_found (splitlines s))"
  unfolding check_valid_sequence_def valid_sequence_found_def
  by (intro fold_appends) (auto simp: numbered_single Let_def intro!: fold_appends)

lemma check_gaps_eq:
  "check_gaps s iss = iss @ numbered (length iss) (gaps_found (splitlines s))"
  unfolding check_gaps_def gaps_found_def
  by (intro fold_appends) (auto simp: numbered_single)

lemma check_blank_lines_eq:
  "check_blank_lines s iss = iss @ numbered (length iss) (blank_lines_found (splitlines s))"
  unfolding check_blank_lines_def blank_lines_found_def
  by (intro fold_appends) (auto simp: numbered_single)

lemma check_fasta_file_eq:
  "check_fasta_file s =
     numbered 0 (non_ascii_found (splitlines s) @ valid_sequence_found (splitlines s) @
       gaps_found (splitlines s) @ blank_lines_found (splitlines s))"
  by (simp add: check_fasta_file_def check_non_ascii_eq check_valid_sequence_eq
      check_gaps_eq check_blank_lines_eq numbered_append add.assoc)

lemma map_issue_number_numbered:
  "map issue_number (numbered k fs) = [Suc k..<Suc k + length fs]"
proof -
  have "map issue_number (numbered k fs) = map (Suc \<circ> fst) (enumerate k fs)"
    by (auto simp: numbered_def)
  also have "\<dots> = map Suc [k..<k + length fs]"
    by (simp flip: map_map)
  finally show ?thesis
    by (simp add: map_Suc_upt)
qed

lemma map_line_number_numbered: "map line_number (numbered k fs) = map fst fs"
proof -
  have "map line_number (numbered k fs) = map (fst \<circ> snd) (enumerate k fs)"
    by (auto simp: numbered_def)
  then show ?thesis
    by (simp flip: map_map)
qed

lemma in_enumerate_0: "(n, x) \<in> set (enumerate 0 xs) \<longleftrightarrow> n < length xs \<and> xs ! n = x"
  by (auto simp: in_set_enumerate_eq)

lemma set_concat_enumerate:
  "set (concat (map g (enumerate 0 xs))) = (\<Union>n<length xs. set (g (n, xs ! n)))"
proof -
  have "set (enumerate 0 xs) = (\<lambda>n. (n, xs ! n)) ` {..<length xs}"
    by (auto simp: in_enumerate_0)
  then show ?thesis by simp
qed

lemma in_numberedD:
  assumes "x \<in> set (numbered k fs)"
  shows "(line_number x, issue x) \<in> set fs"
proof -
  from assms obtain i l t where "(i, l, t) \<in> set (enumerate k fs)"
    and x: "x = \<lparr>issue_number = i + 1, line_number = l, issue = t\<rparr>"
    by (auto simp: numbered_def)
  then have "i - k < length fs" "fs ! (i - k) = (l, t)"
    by (auto simp: in_set_enumerate_eq)
  then have "(l, t) \<in> set fs"
    by (metis nth_mem)
  with x show ?thesis by simp
qed

lemma in_numberedI:
  assumes "(l, t) \<in> set fs"
  shows "\<exists>x \<in> set (numbered k fs). line_number x = l \<and> issue x = t"
proof -
  from assms obtain i where i: "i < length fs" "fs ! i = (l, t)"
    by (auto simp: in_set_conv_nth)
  then have "(k + i, l, t) \<in> set (enumerate k fs)"
    by (auto simp: in_set_enumerate_eq)
  then have "\<lparr>issue_number = k + i + 1, line_number = l, issue = t\<rparr> \<in> set (numbered k fs)"
    unfolding numbered_def by force
  then show ?thesis by force
qed

lemma non_ascii_found_iff:
  "x \<in> set (non_ascii_found lines) \<longleftrightarrow>
     (\<exists>n k. n < length lines \<and> k < length (lines ! n) \<and> lines ! n ! k > 127 \<and>
        x = (n, NonAscii (lines ! n ! k) (k + 1)))"
  unfolding non_ascii_found_def set_concat_enumerate
  by (auto simp: in_enumerate_0 split: if_splits)

lemma valid_sequence_found_iff:
  "x \<in> set (valid_sequence_found lines) \<longleftrightarrow>
     (\<exists>n k. n < length lines \<and> \<not> startswith_gt (lines ! n) \<and> strip (lines ! n) \<noteq> [] \<and>
        k < length (remove_char 9 (remove_char 32 (strip (lines ! n)))) \<and>
        remove_char 9 (remove_char 32 (strip (lines ! n))) ! k \<notin> set valid_chars \<and>
        x = (n + 1,
             InvalidSequenceChar (remove_char 9 (remove_char 32 (strip (lines ! n))) ! k)
               (k + 1)))"
  unfolding valid_sequence_found_def set_concat_enumerate
  by (auto simp: in_enumerate_0 split: if_splits)

lemma gaps_found_iff:
  "x \<in> set (gaps_found lines) \<longleftrightarrow>
     (\<exists>n. n < length lines \<and> \<not> startswith_gt (lines ! n) \<and> strip (lines ! n) \<noteq> [] \<and>
        (32 \<in> set (lines ! n) \<or> 9 \<in> set (lines ! n)) \<and> x = (n + 1, Gap))"
  unfolding gaps_found_def set_concat_enumerate
  by (auto simp: in_enumerate_0 split: if_splits)

lemma blank_lines_found_iff:
  "x \<in> set (blank_lines_found lines) \<longleftrightarrow>
     (\<exists>n. n < length lines \<and> strip (lines ! n) = [] \<and> x = (n + 1, BlankLine))"
  unfolding blank_lines_found_def set_concat_enumerate
  by (auto simp: in_enumerate_0 split: if_splits)

lemma sorted_concat_enumerate:
  assumes "\<And>n x p. p \<in> set (g (n, x)) \<Longrightarrow> fst p = n + d"
  shows "sorted (map fst (concat (map g (enumerate m xs))))"
proof (induction xs arbitrary: m)
  case Nil
  then show ?case by simp
next
  case (Cons x xs)
  have later: "m + d \<le> fst q" if "q \<in> set (concat (map g (enumerate (Suc m) xs)))" for q
  proof -
    from that obtain n y where "(n, y) \<in> set (enumerate (Suc m) xs)" "q \<in> set (g (n, y))"
      by auto
    then have "Suc m \<le> n" "fst q = n + d"
      using assms by (auto simp: in_set_enumerate_eq)
    then show ?thesis by simp
  qed
  have here: "fst p = m + d" if "p \<in> set (g (m, x))" for p
    using that assms by simp
  have "sorted (map fst (g (m, x)))"
    using here by (simp add: sorted_iff_nth_mono)
  moreover have "\<forall>a\<in>set (map fst (g (m, x))).
      \<forall>b\<in>set (map fst (concat (map g (enumerate (Suc m) xs)))). a \<le> b"
  proof (intro ballI)
    fix a b
    assume "a \<in> set (map fst (g (m, x)))"
      and "b \<in> set (map fst (concat (map g (enumerate (Suc m) xs))))"
    then obtain p q where "p \<in> set (g (m, x))" "a = fst p"
      and "q \<in> set (concat (map g (enumerate (Suc m) xs)))" "b = fst q"
      unfolding set_map by blast
    then show "a \<le> b"
      using here [of p] later [of q] by simp
  qed
  ultimately show ?case
    unfolding enumerate_simps list.map concat.simps map_append sorted_append
    using Cons.IH [of "Suc m"] by blast
qed

lemma sorted_non_ascii_found: "sorted (map fst (non_ascii_found lines))"
  unfolding non_ascii_found_def
  by (rule sorted_concat_enumerate [where d = 0]) (auto split: if_splits)

lemma sorted_valid_sequence_found: "sorted (map fst (valid_sequence_found lines))"
  unfolding valid_sequence_found_def
  by (rule sorted_concat_enumerate [where d = 1]) (auto split: if_splits)

lemma sorted_gaps_found: "sorted (map fst (gaps_found lines))"
  unfolding gaps_found_def
  by (rule sorted_concat_enumerate [where d = 1]) (auto split: if_splits)

lemma sorted_blank_lines_found: "sorted (map fst (blank_lines_found lines))"
  unfolding blank_lines_found_def
  by (rule sorted_concat_enumerate [where d = 1]) (auto split: if_splits)


lemma non_ascii_appended:
  assumes "x \<in> set (numbered m (non_ascii_found (splitlines s)))"
  shows "\<exists>n k. n < length (splitlines s) \<and> k < length (splitlines s ! n) \<and>
           127 < splitlines s ! n ! k \<and> line_number x = n \<and>
           issue x = NonAscii (splitlines s ! n ! k) (k + 1)"
  using in_numberedD [OF assms] unfolding non_ascii_found_iff by auto

lemma valid_sequence_appended:
  assumes "x \<in> set (numbered m (valid_sequence_found (splitlines s)))"
  shows "\<exists>n k. n < length (splitlines s) \<and> \<not> startswith_gt (splitlines s ! n) \<and>
           strip (splitlines s ! n) \<noteq> [] \<and>
           k < length (remove_char 9 (remove_char 32 (strip (splitlines s ! n)))) \<and>
           remove_char 9 (remove_char 32 (strip (splitlines s ! n))) ! k \<notin> set valid_chars \<and>
           line_number x = n + 1 \<and>
           issue x =
             InvalidSequenceChar (remove_char 9 (remove_char 32 (strip (splitlines s ! n))) ! k)
               (k + 1)"
  using in_numberedD [OF assms] unfolding valid_sequence_found_iff by auto

lemma gaps_appended:
  assumes "x \<in> set (numbered m (gaps_found (splitlines s)))"
  shows "\<exists>n. n < length (splitlines s) \<and> \<not> startswith_gt (splitlines s ! n) \<and>
           strip (splitlines s ! n) \<noteq> [] \<and>
           (32 \<in> set (splitlines s ! n) \<or> 9 \<in> set (splitlines s ! n)) \<and>
           line_number x = n + 1 \<and> issue x = Gap"
  using in_numberedD [OF assms] unfolding gaps_found_iff by auto

lemma blank_lines_appended:
  assumes "x \<in> set (numbered m (blank_lines_found (splitlines s)))"
  shows "\<exists>n. n < length (splitlines s) \<and> strip (splitlines s ! n) = [] \<and>
           line_number x = n + 1 \<and> issue x = BlankLine"
  using in_numberedD [OF assms] unfolding blank_lines_found_iff by auto


section \<open>The validator\<close>

text \<open>
  C5. Whatever the list \<open>issues\<close> holds before, every issue that the non-ASCII check
  appends carries the index, counted from 0, of a line that has a character above 127 at
  the position the message gives; every issue that the valid-sequence-character check,
  the gap check or the blank-line check appends carries the index of the offending line
  counted from 1, that is the index counted from 0 plus one.
\<close>

theorem line_number_bases:
  "(\<exists>new. check_non_ascii s iss = iss @ new \<and>
      (\<forall>x\<in>set new. \<exists>n k. n < length (splitlines s) \<and> k < length (splitlines s ! n) \<and>
         127 < splitlines s ! n ! k \<and> line_number x = n \<and>
         issue x = NonAscii (splitlines s ! n ! k) (k + 1))) \<and>
   (\<exists>new. check_valid_sequence s iss = iss @ new \<and>
      (\<forall>x\<in>set new. \<exists>n k. n < length (splitlines s) \<and> \<not> startswith_gt (splitlines s ! n) \<and>
         strip (splitlines s ! n) \<noteq> [] \<and>
         k < length (remove_char 9 (remove_char 32 (strip (splitlines s ! n)))) \<and>
         remove_char 9 (remove_char 32 (strip (splitlines s ! n))) ! k \<notin> set valid_chars \<and>
         line_number x = n + 1 \<and>
         issue x =
           InvalidSequenceChar (remove_char 9 (remove_char 32 (strip (splitlines s ! n))) ! k)
             (k + 1))) \<and>
   (\<exists>new. check_gaps s iss = iss @ new \<and>
      (\<forall>x\<in>set new. \<exists>n. n < length (splitlines s) \<and> \<not> startswith_gt (splitlines s ! n) \<and>
         strip (splitlines s ! n) \<noteq> [] \<and>
         (32 \<in> set (splitlines s ! n) \<or> 9 \<in> set (splitlines s ! n)) \<and>
         line_number x = n + 1 \<and> issue x = Gap)) \<and>
   (\<exists>new. check_blank_lines s iss = iss @ new \<and>
      (\<forall>x\<in>set new. \<exists>n. n < length (splitlines s) \<and> strip (splitlines s ! n) = [] \<and>
         line_number x = n + 1 \<and> issue x = BlankLine))"
proof (intro conjI)
  show "\<exists>new. check_non_ascii s iss = iss @ new \<and>
      (\<forall>x\<in>set new. \<exists>n k. n < length (splitlines s) \<and> k < length (splitlines s ! n) \<and>
         127 < splitlines s ! n ! k \<and> line_number x = n \<and>
         issue x = NonAscii (splitlines s ! n ! k) (k + 1))"
    using check_non_ascii_eq non_ascii_appended by blast
  show "\<exists>new. check_valid_sequence s iss = iss @ new \<and>
      (\<forall>x\<in>set new. \<exists>n k. n < length (splitlines s) \<and> \<not> startswith_gt (splitlines s ! n) \<and>
         strip (splitlines s ! n) \<noteq> [] \<and>
         k < length (remove_char 9 (remove_char 32 (strip (splitlines s ! n)))) \<and>
         remove_char 9 (remove_char 32 (strip (splitlines s ! n))) ! k \<notin> set valid_chars \<and>
         line_number x = n + 1 \<and>
         issue x =
           InvalidSequenceChar (remove_char 9 (remove_char 32 (strip (splitlines s ! n))) ! k)
             (k + 1))"
    using check_valid_sequence_eq valid_sequence_appended by blast
  show "\<exists>new. check_gaps s iss = iss @ new \<and>
      (\<forall>x\<in>set new. \<exists>n. n < length (splitlines s) \<and> \<not> startswith_gt (splitlines s ! n) \<and>
         strip (splitlines s ! n) \<noteq> [] \<and>
         (32 \<in> set (splitlines s ! n) \<or> 9 \<in> set (splitlines s ! n)) \<and>
         line_number x = n + 1 \<and> issue x = Gap)"
    using check_gaps_eq gaps_appended by blast
  show "\<exists>new. check_blank_lines s iss = iss @ new \<and>
      (\<forall>x\<in>set new. \<exists>n. n < length (splitlines s) \<and> strip (splitlines s ! n) = [] \<and>
         line_number x = n + 1 \<and> issue x = BlankLine)"
    using check_blank_lines_eq blank_lines_appended by blast
qed


theorem line_number_bases_witness:
  "check_non_ascii ([62, 233, 10] @ ustr ''A X'' @ [10, 10]) [] =
     [\<lparr>issue_number = 1, line_number = 0, issue = NonAscii 233 2\<rparr>] \<and>
   check_valid_sequence ([62, 233, 10] @ ustr ''A X'' @ [10, 10]) [] =
     [\<lparr>issue_number = 1, line_number = 2, issue = InvalidSequenceChar 88 2\<rparr>] \<and>
   check_gaps ([62, 233, 10] @ ustr ''A X'' @ [10, 10]) [] =
     [\<lparr>issue_number = 1, line_number = 2, issue = Gap\<rparr>] \<and>
   check_blank_lines ([62, 233, 10] @ ustr ''A X'' @ [10, 10]) [] =
     [\<lparr>issue_number = 1, line_number = 3, issue = BlankLine\<rparr>] \<and>
   splitlines ([62, 233, 10] @ ustr ''A X'' @ [10, 10]) = [[62, 233], ustr ''A X'', []]"
  using line_number_bases [of "[62, 233, 10] @ ustr ''A X'' @ [10, 10]" "[]"]
  by (simp add: check_defs string_defs)


text \<open>
  C6. The result of the full run is the issues of the non-ASCII check, then those of the
  valid-sequence-character check, then those of the gap check, then those of the
  blank-line check; within each of the four parts the line numbers ascend; and the issue
  at place \<open>i\<close> of the list, counted from 1, has issue number \<open>i\<close>.
\<close>

theorem issue_order:
  "\<exists>A B C D.
     check_non_ascii s [] = A \<and>
     check_valid_sequence s A = A @ B \<and>
     check_gaps s (A @ B) = A @ B @ C \<and>
     check_blank_lines s (A @ B @ C) = A @ B @ C @ D \<and>
     check_fasta_file s = A @ B @ C @ D \<and>
     (\<forall>x\<in>set A. \<exists>c p. issue x = NonAscii c p) \<and>
     (\<forall>x\<in>set B. \<exists>c p. issue x = InvalidSequenceChar c p) \<and>
     (\<forall>x\<in>set C. issue x = Gap) \<and>
     (\<forall>x\<in>set D. issue x = BlankLine) \<and>
     sorted (map line_number A) \<and> sorted (map line_number B) \<and>
     sorted (map line_number C) \<and> sorted (map line_number D) \<and>
     (\<forall>i<length (check_fasta_file s). issue_number (check_fasta_file s ! i) = i + 1)"
proof -
  define A where "A = numbered 0 (non_ascii_found (splitlines s))"
  define B where "B = numbered (length A) (valid_sequence_found (splitlines s))"
  define C where "C = numbered (length (A @ B)) (gaps_found (splitlines s))"
  define D where "D = numbered (length (A @ B @ C)) (blank_lines_found (splitlines s))"
  have a: "check_non_ascii s [] = A"
    by (simp add: check_non_ascii_eq A_def)
  have b: "check_valid_sequence s A = A @ B"
    by (simp add: check_valid_sequence_eq B_def)
  have c: "check_gaps s (A @ B) = A @ B @ C"
    by (simp add: check_gaps_eq C_def)
  have d: "check_blank_lines s (A @ B @ C) = A @ B @ C @ D"
    by (simp add: check_blank_lines_eq D_def)
  have all: "check_fasta_file s = A @ B @ C @ D"
    by (simp add: check_fasta_file_def a b c d)
  have kA: "\<forall>x\<in>set A. \<exists>c p. issue x = NonAscii c p"
    unfolding A_def using non_ascii_appended by blast
  have kB: "\<forall>x\<in>set B. \<exists>c p. issue x = InvalidSequenceChar c p"
    unfolding B_def using valid_sequence_appended by blast
  have kC: "\<forall>x\<in>set C. issue x = Gap"
    unfolding C_def using gaps_appended by blast
  have kD: "\<forall>x\<in>set D. issue x = BlankLine"
    unfolding D_def using blank_lines_appended by blast
  have sA: "sorted (map line_number A)"
    by (simp add: A_def map_line_number_numbered sorted_non_ascii_found)
  have sB: "sorted (map line_number B)"
    by (simp only: B_def map_line_number_numbered sorted_valid_sequence_found)
  have sC: "sorted (map line_number C)"
    by (simp only: C_def map_line_number_numbered sorted_gaps_found)
  have sD: "sorted (map line_number D)"
    by (simp only: D_def map_line_number_numbered sorted_blank_lines_found)
  have ord: "\<forall>i<length (check_fasta_file s). issue_number (check_fasta_file s ! i) = i + 1"
  proof (intro allI impI)
    fix i assume i: "i < length (check_fasta_file s)"
    obtain fs where fs: "check_fasta_file s = numbered 0 fs"
      using check_fasta_file_eq by blast
    have "issue_number (check_fasta_file s ! i) = map issue_number (check_fasta_file s) ! i"
      using i by simp
    also have "\<dots> = [Suc 0..<Suc 0 + length fs] ! i"
      by (simp only: fs map_issue_number_numbered)
    also have "\<dots> = i + 1"
      using i by (simp add: fs nth_upt del: upt_Suc)
    finally show "issue_number (check_fasta_file s ! i) = i + 1" .
  qed
  from a b c d all kA kB kC kD sA sB sC sD ord show ?thesis
    by blast
qed

theorem issue_order_witness:
  "check_fasta_file ([62, 233, 10] @ ustr ''A X'' @ [10, 10, 200, 10] @ ustr ''ATCG X'' @ [9]) =
     [\<lparr>issue_number = 1, line_number = 0, issue = NonAscii 233 2\<rparr>,
      \<lparr>issue_number = 2, line_number = 3, issue = NonAscii 200 1\<rparr>,
      \<lparr>issue_number = 3, line_number = 2, issue = InvalidSequenceChar 88 2\<rparr>,
      \<lparr>issue_number = 4, line_number = 4, issue = InvalidSequenceChar 200 1\<rparr>,
      \<lparr>issue_number = 5, line_number = 5, issue = InvalidSequenceChar 88 5\<rparr>,
      \<lparr>issue_number = 6, line_number = 2, issue = Gap\<rparr>,
      \<lparr>issue_number = 7, line_number = 5, issue = Gap\<rparr>,
      \<lparr>issue_number = 8, line_number = 3, issue = BlankLine\<rparr>]"
  using issue_order [of "[62, 233, 10] @ ustr ''A X'' @ [10, 10, 200, 10] @ ustr ''ATCG X'' @ [9]"]
  by (simp add: check_defs string_defs)


text \<open>
  C7. When a line of the text is \<open>ATCG X\<close>, with \<open>n\<close> its index counted from 0, the run
  reports a gap on line \<open>n + 1\<close> and an invalid sequence character \<open>X\<close> (code 88) on line
  \<open>n + 1\<close> at position 5, and no invalid sequence character on that line at any other
  position: 5 is the place of \<open>X\<close> in the sequence without the space, while in the line
  itself \<open>X\<close> is the sixth character.
\<close>

theorem gap_and_invalid_char:
  assumes "n < length (splitlines s)" and "splitlines s ! n = ustr ''ATCG X''"
  shows "(\<exists>x\<in>set (check_fasta_file s). line_number x = n + 1 \<and> issue x = Gap) \<and>
         (\<exists>x\<in>set (check_fasta_file s).
            line_number x = n + 1 \<and> issue x = InvalidSequenceChar 88 5) \<and>
         (\<forall>x\<in>set (check_fasta_file s). \<forall>c p.
            line_number x = n + 1 \<and> issue x = InvalidSequenceChar c p \<longrightarrow> c = 88 \<and> p = 5) \<and>
         remove_char 9 (remove_char 32 (strip (ustr ''ATCG X''))) ! 4 = 88 \<and>
         ustr ''ATCG X'' ! 5 = 88"
proof -
  let ?L = "splitlines s"
  have line: "\<not> startswith_gt (?L ! n)" "strip (?L ! n) \<noteq> []" "32 \<in> set (?L ! n)"
    and seq: "remove_char 9 (remove_char 32 (strip (?L ! n))) = ustr ''ATCGX''"
    unfolding assms(2) by (simp_all add: string_defs)
  have bad: "k < 5 \<and> ustr ''ATCGX'' ! k \<notin> set valid_chars \<longleftrightarrow> k = 4" for k
  proof -
    have "k < 5 \<longleftrightarrow> k \<in> {0, 1, 2, 3, 4}" by auto
    then show ?thesis
      by (auto simp add: string_defs)
  qed
  have "(n + 1, Gap) \<in> set (gaps_found ?L)"
    unfolding gaps_found_iff using assms(1) line by blast
  then have gap: "\<exists>x\<in>set (check_fasta_file s). line_number x = n + 1 \<and> issue x = Gap"
    using in_numberedI [of "n + 1" Gap _ 0] unfolding check_fasta_file_eq by fastforce
  have "(n + 1, InvalidSequenceChar 88 5) \<in> set (valid_sequence_found ?L)"
    unfolding valid_sequence_found_iff
    using assms(1) line seq by (intro exI [of _ n] exI [of _ 4]) (simp add: string_defs)
  then have inv: "\<exists>x\<in>set (check_fasta_file s).
      line_number x = n + 1 \<and> issue x = InvalidSequenceChar 88 5"
    using in_numberedI [of "n + 1" "InvalidSequenceChar 88 5" _ 0]
    unfolding check_fasta_file_eq by fastforce
  have only: "c = 88 \<and> p = 5"
    if x: "x \<in> set (check_fasta_file s)" "line_number x = n + 1"
      "issue x = InvalidSequenceChar c p" for x c p
  proof -
    have "(line_number x, issue x) \<in> set (non_ascii_found ?L @
        valid_sequence_found ?L @ gaps_found ?L @ blank_lines_found ?L)"
      using x(1) unfolding check_fasta_file_eq by (rule in_numberedD)
    then have "(n + 1, InvalidSequenceChar c p) \<in> set (non_ascii_found ?L) \<union>
        set (valid_sequence_found ?L) \<union> set (gaps_found ?L) \<union> set (blank_lines_found ?L)"
      using x(2,3) by auto
    then have "(n + 1, InvalidSequenceChar c p) \<in> set (valid_sequence_found ?L)"
      by (auto simp: non_ascii_found_iff gaps_found_iff blank_lines_found_iff)
    then obtain k where "k < length (ustr ''ATCGX'')"
      "ustr ''ATCGX'' ! k \<notin> set valid_chars" "c = ustr ''ATCGX'' ! k" "p = k + 1"
      unfolding valid_sequence_found_iff using seq by auto
    moreover from this have "k = 4"
      using bad [of k] by (simp add: ustr_def)
    ultimately show ?thesis
      by (simp add: ustr_def)
  qed
  have "remove_char 9 (remove_char 32 (strip (ustr ''ATCG X''))) ! 4 = 88"
    "ustr ''ATCG X'' ! 5 = 88"
    by (simp_all add: string_defs)
  with gap inv only show ?thesis
    by blast
qed

theorem gap_and_invalid_char_witness:
  "1 < length (splitlines (ustr ''>A'' @ [10] @ ustr ''ATCG X'')) \<and>
   splitlines (ustr ''>A'' @ [10] @ ustr ''ATCG X'') ! 1 = ustr ''ATCG X'' \<and>
   (\<exists>x\<in>set (check_fasta_file (ustr ''>A'' @ [10] @ ustr ''ATCG X'')).
      line_number x = 2 \<and> issue x = Gap) \<and>
   (\<exists>x\<in>set (check_fasta_file (ustr ''>A'' @ [10] @ ustr ''ATCG X'')).
      line_number x = 2 \<and> issue x = InvalidSequenceChar 88 5)"
proof -
  have h1: "1 < length (splitlines (ustr ''>A'' @ [10] @ ustr ''ATCG X''))"
    by (simp add: string_defs)
  have h2: "splitlines (ustr ''>A'' @ [10] @ ustr ''ATCG X'') ! 1 = ustr ''ATCG X''"
    by (simp add: string_defs)
  show ?thesis
    using h1 h2 gap_and_invalid_char [OF h1 h2] by (simp add: numeral_2_eq_2)
qed


section \<open>Lines and their characters\<close>

lemma set_splitlines_from:
  "line \<in> set (splitlines_from cur s) \<Longrightarrow> set line \<subseteq> set cur \<union> set s"
proof (induction cur s arbitrary: line rule: splitlines_from.induct)
  case (1 cur)
  then show ?case by (simp split: if_splits)
next
  case (2 cur c)
  then show ?case by (auto split: if_splits)
next
  case (3 cur c d s)
  show ?case
  proof (cases "is_linebreak c")
    case False
    then have "line \<in> set (splitlines_from (cur @ [c]) (d # s))"
      using "3.prems" by simp
    then have "set line \<subseteq> set (cur @ [c]) \<union> set (d # s)"
      using False by (rule "3.IH"(3) [rotated])
    then show ?thesis by auto
  next
    case True
    show ?thesis
    proof (cases "c = 13 \<and> d = 10")
      case crlf: True
      then have "line = cur \<or> line \<in> set (splitlines_from [] s)"
        using "3.prems" True by simp
      then show ?thesis
        using "3.IH"(1) [OF True crlf] by auto
    next
      case other: False
      then have "line = cur \<or> line \<in> set (splitlines_from [] (d # s))"
        using "3.prems" True by auto
      then show ?thesis
        using "3.IH"(2) [OF True other] by auto
    qed
  qed
qed

lemma set_splitlines: "line \<in> set (splitlines s) \<Longrightarrow> set line \<subseteq> set s"
  using set_splitlines_from [of line "[]" s] by (simp add: splitlines_def)

lemma set_strip: "set (strip s) \<subseteq> set s"
proof -
  have "set (strip s) = set (dropWhile is_space (rev (dropWhile is_space s)))"
    by (simp add: strip_def)
  also have "\<dots> \<subseteq> set (rev (dropWhile is_space s))"
    by (auto dest: set_dropWhileD)
  also have "\<dots> \<subseteq> set s"
    by (auto dest: set_dropWhileD)
  finally show ?thesis .
qed

lemma set_cleaned: "set (remove_char 9 (remove_char 32 (strip line))) \<subseteq> set line"
  using set_strip [of line] by (auto simp: remove_char_def)


section \<open>Text without findings\<close>

text \<open>
  C2. Take the lines of the text as the checks split it, that is at every boundary of
  \<open>splitlines\<close> and not at line feeds only. When every such line that does not start with
  \<open>>\<close> consists of the characters \<open>AaTtCcGgNn()\<close> only, no such line is empty or white
  space only, the text has no space and no tab, and no character of the text is above 127,
  the four checks run in order return the empty list.
\<close>

theorem clean_text_no_issues:
  assumes "\<forall>line\<in>set (splitlines s). \<not> startswith_gt line \<longrightarrow> set line \<subseteq> set valid_chars"
    and "\<forall>line\<in>set (splitlines s). strip line \<noteq> []"
    and "\<forall>c\<in>set s. c \<noteq> 32 \<and> c \<noteq> 9"
    and "\<forall>c\<in>set s. c \<le> 127"
  shows "check_fasta_file s = []"
proof -
  let ?L = "splitlines s"
  have in_text: "set (?L ! n) \<subseteq> set s" if "n < length ?L" for n
    using that set_splitlines [of "?L ! n" s] by simp
  have a: "non_ascii_found ?L = []"
  proof (rule ccontr)
    assume "non_ascii_found ?L \<noteq> []"
    then obtain x where "x \<in> set (non_ascii_found ?L)"
      using hd_in_set by blast
    then obtain n k where nk: "n < length ?L" "k < length (?L ! n)" "127 < ?L ! n ! k"
      unfolding non_ascii_found_iff by blast
    then have "?L ! n ! k \<in> set s"
      using in_text [of n] nth_mem [of k "?L ! n"] by blast
    then have "?L ! n ! k \<le> 127"
      using assms(4) by simp
    with nk(3) show False by simp
  qed
  have b: "valid_sequence_found ?L = []"
  proof (rule ccontr)
    assume "valid_sequence_found ?L \<noteq> []"
    then obtain x where "x \<in> set (valid_sequence_found ?L)"
      using hd_in_set by blast
    then obtain n k where nk: "n < length ?L" "\<not> startswith_gt (?L ! n)"
      "k < length (remove_char 9 (remove_char 32 (strip (?L ! n))))"
      "remove_char 9 (remove_char 32 (strip (?L ! n))) ! k \<notin> set valid_chars"
      unfolding valid_sequence_found_iff by blast
    have "remove_char 9 (remove_char 32 (strip (?L ! n))) ! k \<in> set (?L ! n)"
      using nth_mem [OF nk(3)] set_cleaned [of "?L ! n"] by blast
    moreover have "set (?L ! n) \<subseteq> set valid_chars"
      using assms(1) nk(1,2) by simp
    ultimately show False
      using nk(4) by blast
  qed
  have c: "gaps_found ?L = []"
  proof (rule ccontr)
    assume "gaps_found ?L \<noteq> []"
    then obtain x where "x \<in> set (gaps_found ?L)"
      using hd_in_set by blast
    then obtain n where n: "n < length ?L" "32 \<in> set (?L ! n) \<or> 9 \<in> set (?L ! n)"
      unfolding gaps_found_iff by blast
    then have "32 \<in> set s \<or> 9 \<in> set s"
      using in_text [of n] by blast
    with assms(3) show False by blast
  qed
  have d: "blank_lines_found ?L = []"
  proof (rule ccontr)
    assume "blank_lines_found ?L \<noteq> []"
    then obtain x where "x \<in> set (blank_lines_found ?L)"
      using hd_in_set by blast
    then obtain n where n: "n < length ?L" "strip (?L ! n) = []"
      unfolding blank_lines_found_iff by blast
    then show False
      using assms(2) nth_mem [of n ?L] by blast
  qed
  show ?thesis
    by (simp add: check_fasta_file_eq a b c d)
qed

theorem clean_text_no_issues_witness:
  "splitlines (ustr ''>A1'' @ [10] @ ustr ''ATcg(N)n'') = [ustr ''>A1'', ustr ''ATcg(N)n''] \<and>
   check_fasta_file (ustr ''>A1'' @ [10] @ ustr ''ATcg(N)n'') = []"
proof -
  have h1: "\<forall>line\<in>set (splitlines (ustr ''>A1'' @ [10] @ ustr ''ATcg(N)n'')).
      \<not> startswith_gt line \<longrightarrow> set line \<subseteq> set valid_chars"
    by (simp add: string_defs)
  have h2: "\<forall>line\<in>set (splitlines (ustr ''>A1'' @ [10] @ ustr ''ATcg(N)n'')). strip line \<noteq> []"
    by (simp add: string_defs)
  have h3: "\<forall>c\<in>set (ustr ''>A1'' @ [10] @ ustr ''ATcg(N)n''). c \<noteq> 32 \<and> c \<noteq> 9"
    by (simp add: string_defs)
  have h4: "\<forall>c\<in>set (ustr ''>A1'' @ [10] @ ustr ''ATcg(N)n''). c \<le> 127"
    by (simp add: string_defs)
  have "splitlines (ustr ''>A1'' @ [10] @ ustr ''ATcg(N)n'') = [ustr ''>A1'', ustr ''ATcg(N)n'']"
    by (simp add: string_defs)
  with clean_text_no_issues [OF h1 h2 h3 h4] show ?thesis
    by blast
qed

text \<open>
  With the lines taken between line feeds the statement fails. The table with the single
  row (\<open>A\<close>, carriage return, \<open>X\<close>; \<open>ACGT\<close>) is serialized to a header line that holds the
  carriage return and the sequence line \<open>ACGT\<close>. Both lines meet every condition: the
  first starts with \<open>>\<close>, the second has valid characters only, neither is blank, there
  is no space, no tab and no character above 127. The checks split the header at the
  carriage return and report \<open>X\<close> as an invalid sequence character on line 2.
\<close>

theorem carriage_return_in_header:
  "fasta_str (main (Sheet [[ustr ''A'' @ [13] @ ustr ''X'', ustr ''ACGT'']])) =
     Some (ustr ''>A'' @ [13] @ ustr ''X'' @ [10] @ ustr ''ACGT'') \<and>
   lf_lines (ustr ''>A'' @ [13] @ ustr ''X'' @ [10] @ ustr ''ACGT'') =
     [ustr ''>A'' @ [13] @ ustr ''X'', ustr ''ACGT''] \<and>
   list_all (\<lambda>line. startswith_gt line \<or> set line \<subseteq> set valid_chars)
     (lf_lines (ustr ''>A'' @ [13] @ ustr ''X'' @ [10] @ ustr ''ACGT'')) \<and>
   list_all (\<lambda>line. strip line \<noteq> [])
     (lf_lines (ustr ''>A'' @ [13] @ ustr ''X'' @ [10] @ ustr ''ACGT'')) \<and>
   list_all (\<lambda>c. c \<noteq> 32 \<and> c \<noteq> 9 \<and> c \<le> 127)
     (ustr ''>A'' @ [13] @ ustr ''X'' @ [10] @ ustr ''ACGT'') \<and>
   check_fasta_file (ustr ''>A'' @ [13] @ ustr ''X'' @ [10] @ ustr ''ACGT'') =
     [\<lparr>issue_number = 1, line_number = 2, issue = InvalidSequenceChar 88 1\<rparr>]"
  by (simp add: main_defs check_defs string_defs lf_lines_def)


section \<open>Scenarios\<close>

text \<open>
  C8. Validating the text \<open>>A\<close>, blank line, \<open>ATCG\<close> gives exactly one issue: a blank
  line issue whose line number, 2, is the number of the blank line counted from 1; the
  other three checks add nothing.
\<close>

theorem blank_line_scenario:
  "check_fasta_file (ustr ''>A'' @ [10, 10] @ ustr ''ATCG'') =
     [\<lparr>issue_number = 1, line_number = 2, issue = BlankLine\<rparr>] \<and>
   splitlines (ustr ''>A'' @ [10, 10] @ ustr ''ATCG'') = [ustr ''>A'', [], ustr ''ATCG'']"
  by (simp add: check_defs string_defs)

text \<open>
  C1. The table with the rows (Sample1, ATCGN), (empty, GGCC) and (Sample2, none) is
  serialized to four lines: the header and sequence of Sample1, nothing for the second
  row, and for the third row the header of Sample2 followed by an empty line. The text is
  therefore \<open>>Sample1\<close>, \<open>ATCGN\<close>, \<open>>Sample2\<close>, each followed by a line feed, and not
  the two lines of Sample1 alone.
\<close>

theorem scenario_table_serialized:
  "fasta_contents (main (Sheet [[ustr ''Sample1'', ustr ''ATCGN''], [[], ustr ''GGCC''],
       [ustr ''Sample2'', ustr ''none'']])) =
     [ustr ''>Sample1'', ustr ''ATCGN'', ustr ''>Sample2'', []] \<and>
   fasta_str (main (Sheet [[ustr ''Sample1'', ustr ''ATCGN''], [[], ustr ''GGCC''],
       [ustr ''Sample2'', ustr ''none'']])) =
     Some (ustr ''>Sample1'' @ [10] @ ustr ''ATCGN'' @ [10] @ ustr ''>Sample2'' @ [10])"
  by (simp add: main_defs check_defs string_defs)

theorem scenario_table_not_two_lines:
  "fasta_str (main (Sheet [[ustr ''Sample1'', ustr ''ATCGN''], [[], ustr ''GGCC''],
       [ustr ''Sample2'', ustr ''none'']])) \<noteq>
     Some (ustr ''>Sample1'' @ [10] @ ustr ''ATCGN'')"
  by (simp add: main_defs check_defs string_defs)

section \<open>Screening the cells\<close>

lemma fold_collects:
  assumes "\<And>x w seen. x \<in> set xs \<Longrightarrow> f x (w, seen) = (w @ g x, seen \<or> g x \<noteq> [])"
  shows "fold f xs (w, seen) = (w @ concat (map g xs), seen \<or> concat (map g xs) \<noteq> [])"
  using assms
proof (induction xs arbitrary: w seen)
  case Nil
  then show ?case by simp
next
  case (Cons x xs)
  have "fold f (x # xs) (w, seen) = fold f xs (w @ g x, seen \<or> g x \<noteq> [])"
    using Cons.prems by simp
  also have "\<dots> = ((w @ g x) @ concat (map g xs),
      (seen \<or> g x \<noteq> []) \<or> concat (map g xs) \<noteq> [])"
    using Cons.prems by (intro Cons.IH) simp
  finally show ?case by auto
qed

lemma screen_cells_eq: "screen_cells table = (illegal_found table, illegal_found table \<noteq> [])"
proof -
  have "screen_cells table = ([] @ illegal_found table, False \<or> illegal_found table \<noteq> [])"
    unfolding screen_cells_def illegal_found_def
    by (intro fold_collects) (auto intro!: fold_collects)
  then show ?thesis by simp
qed

lemma illegal_found_iff:
  "x \<in> set (illegal_found table) \<longleftrightarrow>
     (\<exists>i j k. i < length table \<and> j < length (table ! i) \<and> k < length (table ! i ! j) \<and>
        255 < table ! i ! j ! k \<and>
        x = \<lparr>loc_row = i + 1, loc_column = j + 1, loc_character = k + 1,
              loc_symbol = table ! i ! j ! k, loc_cell = table ! i ! j\<rparr>)"
  unfolding illegal_found_def set_concat_enumerate
  by (auto simp: in_enumerate_0 split: if_splits)

lemma length_concat_enumerate:
  assumes "\<And>n x. length (g (n, x)) = h x"
  shows "length (concat (map g (enumerate m xs))) = sum_list (map h xs)"
  by (induction xs arbitrary: m) (simp_all add: assms)

lemma length_concat_enumerate_filter:
  assumes "\<And>n x. length (g (n, x)) = (if P x then 1 else 0)"
  shows "length (concat (map g (enumerate m xs))) = length (filter P xs)"
  by (induction xs arbitrary: m) (simp_all add: assms)

lemma length_illegal_found:
  "length (illegal_found table) =
     (\<Sum>row\<leftarrow>table. \<Sum>col\<leftarrow>row. length (filter (\<lambda>c. 255 < c) col))"
  unfolding illegal_found_def
  by (intro length_concat_enumerate)
    (auto intro!: length_concat_enumerate length_concat_enumerate_filter)

text \<open>
  C3. When some cell of the table has a character above 255, the screening loops set
  \<open>illegal_chars_seen\<close> and write a message for every character above 255 of every cell,
  one message for each; \<open>format_as_fasta\<close> stays false, so the block that serializes the
  table does not run: \<open>fasta_contents\<close> is still empty, \<open>fasta_str\<close> and \<open>issues\<close> are
  not bound, and nothing may be saved.
\<close>

theorem illegal_characters_halt:
  assumes "i < length table" and "j < length (table ! i)" and "k < length (table ! i ! j)"
    and "255 < table ! i ! j ! k"
  shows "illegal_chars_seen (main (Sheet table)) \<and>
         \<not> format_as_fasta (main (Sheet table)) \<and>
         fasta_contents (main (Sheet table)) = [] \<and>
         fasta_str (main (Sheet table)) = None \<and>
         issues (main (Sheet table)) = None \<and>
         \<not> okay_to_save (main (Sheet table)) \<and>
         (\<forall>i' j' k'. i' < length table \<and> j' < length (table ! i') \<and>
            k' < length (table ! i' ! j') \<and> 255 < table ! i' ! j' ! k' \<longrightarrow>
              \<lparr>loc_row = i' + 1, loc_column = j' + 1, loc_character = k' + 1,
                loc_symbol = table ! i' ! j' ! k', loc_cell = table ! i' ! j'\<rparr>
              \<in> set (written (main (Sheet table)))) \<and>
         length (written (main (Sheet table))) =
           (\<Sum>row\<leftarrow>table. \<Sum>col\<leftarrow>row. length (filter (\<lambda>c. 255 < c) col))"
proof -
  have "\<lparr>loc_row = i + 1, loc_column = j + 1, loc_character = k + 1,
          loc_symbol = table ! i ! j ! k, loc_cell = table ! i ! j\<rparr> \<in> set (illegal_found table)"
    unfolding illegal_found_iff using assms by blast
  then have seen: "illegal_found table \<noteq> []"
    by auto
  have out: "main (Sheet table) =
      \<lparr>written = illegal_found table, illegal_chars_seen = True, format_as_fasta = False,
        fasta_contents = [], fasta_str = None, issues = None, okay_to_save = False\<rparr>"
    by (simp add: main_def screen_cells_eq seen)
  have all: "\<forall>i' j' k'. i' < length table \<and> j' < length (table ! i') \<and>
      k' < length (table ! i' ! j') \<and> 255 < table ! i' ! j' ! k' \<longrightarrow>
        \<lparr>loc_row = i' + 1, loc_column = j' + 1, loc_character = k' + 1,
          loc_symbol = table ! i' ! j' ! k', loc_cell = table ! i' ! j'\<rparr>
        \<in> set (illegal_found table)"
    unfolding illegal_found_iff by blast
  show ?thesis
    unfolding out using all by (simp add: length_illegal_found)
qed

theorem illegal_characters_halt_witness:
  "255 < [[ustr ''S1'', ustr ''AT'' @ [256, 65, 300]], [[1000], ustr ''GG'']] ! 0 ! 1 ! 2 \<and>
   main (Sheet [[ustr ''S1'', ustr ''AT'' @ [256, 65, 300]], [[1000], ustr ''GG'']]) =
     \<lparr>written =
        [\<lparr>loc_row = 1, loc_column = 2, loc_character = 3, loc_symbol = 256,
           loc_cell = ustr ''AT'' @ [256, 65, 300]\<rparr>,
         \<lparr>loc_row = 1, loc_column = 2, loc_character = 5, loc_symbol = 300,
           loc_cell = ustr ''AT'' @ [256, 65, 300]\<rparr>,
         \<lparr>loc_row = 2, loc_column = 1, loc_character = 1, loc_symbol = 1000,
           loc_cell = [1000]\<rparr>],
       illegal_chars_seen = True, format_as_fasta = False, fasta_contents = [],
       fasta_str = None, issues = None, okay_to_save = False\<rparr>"
  using illegal_characters_halt
    [of 0 "[[ustr ''S1'', ustr ''AT'' @ [256, 65, 300]], [[1000], ustr ''GG'']]" 1 2]
  by (simp add: main_defs string_defs)


section \<open>The serializer\<close>

lemma cell_step_name:
  "even j \<Longrightarrow> cell_step (j, col) (hb, out) =
     (if cell_text col = [] then (True, out) else (False, out @ [62 # cell_text col]))"
  by (simp add: cell_text_def Let_def)

lemma cell_step_sequence:
  "odd j \<Longrightarrow> cell_step (j, col) (hb, out) =
     (if hb then (hb, out) else (hb, out @ [cell_text col]))"
  by (auto simp: cell_text_def Let_def odd_iff_mod_2_eq_one)

lemma cell_text_blank:
  "cell_text col = [] \<longleftrightarrow> strip col = [] \<or> lower (strip col) = ustr ''none''"
  by (simp add: cell_text_def Let_def)

lemma fold_cell_step_lines:
  "even j \<Longrightarrow> \<exists>hb'. fold cell_step (enumerate j row) (hb, out) = (hb', out @ row_lines row)"
proof (induction row arbitrary: j hb out rule: row_lines.induct)
  case (1 name sequence rest)
  then have odd: "odd (Suc j)" and even: "even (Suc (Suc j))"
    by simp_all
  show ?case
  proof (cases "cell_text name = []")
    case True
    then show ?thesis
      using "1.IH"(1) [OF True even, of True out] "1.prems" odd
      by (simp add: cell_step_name cell_step_sequence del: cell_step.simps)
  next
    case False
    then show ?thesis
      using "1.IH"(2) [OF False even, of False "out @ [62 # cell_text name, cell_text sequence]"]
        "1.prems" odd
      by (simp add: cell_step_name cell_step_sequence del: cell_step.simps)
  qed
next
  case (2 name)
  then show ?case
    by (auto simp: cell_step_name simp del: cell_step.simps)
next
  case 3
  then show ?case by simp
qed

lemma row_loop_lines: "\<exists>hb'. row_loop row (hb, out) = (hb', out @ row_lines row)"
  unfolding row_loop_def by (rule fold_cell_step_lines) simp

lemma table_loop_lines:
  "\<exists>hb'. table_loop table (hb, out) = (hb', out @ table_lines table)"
proof (induction table arbitrary: hb out)
  case Nil
  then show ?case by (simp add: table_loop_def table_lines_def)
next
  case (Cons row table)
  obtain hb1 where r: "row_loop row (hb, out) = (hb1, out @ row_lines row)"
    using row_loop_lines by blast
  obtain hb2 where "table_loop table (hb1, out @ row_lines row) =
      (hb2, (out @ row_lines row) @ table_lines table)"
    using Cons.IH by blast
  then show ?case
    using r by (simp add: table_loop_def table_lines_def)
qed

lemma row_lines_append:
  "even (length pre) \<Longrightarrow> row_lines (pre @ rest) = row_lines pre @ row_lines rest"
  by (induction pre rule: row_lines.induct) (simp_all add: Let_def)

lemma row_lines_without_blank_pair:
  assumes "Suc j < length row" and "even j" and "cell_text (row ! j) = []"
  shows "row_lines (take j row @ drop (Suc (Suc j)) row) = row_lines row"
proof -
  have len: "even (length (take j row))"
    using assms(1,2) by simp
  have "row = take j row @ row ! j # row ! Suc j # drop (Suc (Suc j)) row"
    using assms(1) by (simp add: id_take_nth_drop Cons_nth_drop_Suc)
  then have "row_lines row =
      row_lines (take j row @ row ! j # row ! Suc j # drop (Suc (Suc j)) row)"
    by simp
  also have "\<dots> = row_lines (take j row) @
      row_lines (row ! j # row ! Suc j # drop (Suc (Suc j)) row)"
    using len by (rule row_lines_append)
  also have "\<dots> = row_lines (take j row) @ row_lines (drop (Suc (Suc j)) row)"
    using assms(3) by simp
  also have "\<dots> = row_lines (take j row @ drop (Suc (Suc j)) row)"
    using len by (rule row_lines_append [symmetric])
  finally show ?thesis by simp
qed

lemma table_loop_without_blank_pair:
  assumes "i < length table" and "Suc j < length (table ! i)" and "even j"
    and "cell_text (table ! i ! j) = []"
  shows "snd (table_loop (table[i := take j (table ! i) @ drop (Suc (Suc j)) (table ! i)]) st) =
         snd (table_loop table st)"
proof -
  have "map row_lines (table[i := take j (table ! i) @ drop (Suc (Suc j)) (table ! i)]) =
      (map row_lines table)[i := row_lines (table ! i)]"
    using assms by (simp add: map_update row_lines_without_blank_pair)
  also have "\<dots> = map row_lines table"
    using assms(1) by (simp add: list_update_same_conv)
  finally have "table_lines
      (table[i := take j (table ! i) @ drop (Suc (Suc j)) (table ! i)]) =
      table_lines table"
    by (simp add: table_lines_def)
  moreover have "snd (table_loop t st) = snd st @ table_lines t" for t
    using table_loop_lines [of t "fst st" "snd st"] by auto
  ultimately show ?thesis by simp
qed

lemma sequence_cell_after_blank_name:
  assumes "i < length table" and "Suc j < length (table ! i)" and "even j"
    and "strip (table ! i ! j) = [] \<or> lower (strip (table ! i ! j)) = ustr ''none''"
  shows "let before = fold cell_step (enumerate 0 (take (Suc j) (table ! i)))
                        (table_loop (take i table) st);
             after = cell_step (Suc j, table ! i ! Suc j) before
         in snd after = snd before \<and>
            table_loop table st =
              table_loop (drop (Suc i) table)
                (fold cell_step (enumerate (Suc (Suc j)) (drop (Suc (Suc j)) (table ! i))) after)"
proof -
  define row where "row = table ! i"
  define st0 where "st0 = table_loop (take i table) st"
  define st1 where "st1 = fold cell_step (enumerate 0 (take j row)) st0"
  define before where "before = fold cell_step (enumerate 0 (take (Suc j) row)) st0"
  define after where "after = cell_step (Suc j, row ! Suc j) before"
  have j: "j < length row" "Suc j < length row"
    using assms(2) by (simp_all add: row_def)
  have "take (Suc j) row = take j row @ [row ! j]"
    using j(1) by (simp add: take_Suc_conv_app_nth)
  then have "before = cell_step (j, row ! j) st1"
    using j(1) by (simp add: before_def st1_def enumerate_append_eq)
  moreover have "cell_text (row ! j) = []"
    using assms(4) by (simp add: cell_text_blank row_def)
  ultimately have before: "before = (True, snd st1)"
    using assms(3) cell_step_name [of j "row ! j" "fst st1" "snd st1"] by simp
  have same: "after = before"
    unfolding after_def before using assms(3)
    by (simp add: cell_step_sequence del: cell_step.simps)
  have "row = take (Suc j) row @ row ! Suc j # drop (Suc (Suc j)) row"
    using j(2) by (simp add: id_take_nth_drop)
  then have "enumerate 0 row = enumerate 0 (take (Suc j) row) @
      (Suc j, row ! Suc j) # enumerate (Suc (Suc j)) (drop (Suc (Suc j)) row)"
    using j(2) enumerate_append_eq [of 0 "take (Suc j) row" "row ! Suc j # drop (Suc (Suc j)) row"]
    by (simp add: min_def)
  then have row_run: "row_loop row st0 =
      fold cell_step (enumerate (Suc (Suc j)) (drop (Suc (Suc j)) row)) after"
    by (simp add: row_loop_def after_def before_def)
  have "table = take i table @ row # drop (Suc i) table"
    using assms(1) by (simp add: row_def id_take_nth_drop)
  then have "table_loop table st = fold row_loop (take i table @ row # drop (Suc i) table) st"
    by (simp add: table_loop_def)
  also have "\<dots> = table_loop (drop (Suc i) table) (row_loop row st0)"
    by (simp add: table_loop_def st0_def)
  finally have "table_loop table st =
      table_loop (drop (Suc i) table)
        (fold cell_step (enumerate (Suc (Suc j)) (drop (Suc (Suc j)) row)) after)"
    by (simp add: row_run)
  then show ?thesis
    using same by (simp add: Let_def after_def before_def st0_def row_def)
qed

lemma row_pairs_even: "even (length row) \<Longrightarrow> row_pairs row = row_lines row"
  by (induction row rule: row_pairs.induct) (simp_all add: Let_def)

text \<open>
  C9. For every table whose rows all have an even number of cells, as the rows read from
  the first two columns of the sheet have, and from any value of the flag and any lines
  collected before, the two loops of \<open>main\<close>, which share one flag \<open>header_blank\<close> across
  all cells and rows, add exactly the lines of the serializer of the specification, which
  computes the flag anew at each name cell and reads it for the sequence cell of that
  pair only. The value of the flag before a pair never decides what the pair emits. A row
  with an odd number of cells is left out: for its last cell the loops emit a header where
  the specification ignores the cell.
\<close>

theorem flag_is_pair_local:
  assumes "\<forall>row\<in>set table. even (length row)"
  shows "snd (table_loop table (header_blank, out)) = out @ pairwise_contents table"
proof -
  have "map row_pairs table = map row_lines table"
    using assms by (intro map_cong refl) (simp add: row_pairs_even)
  then have "pairwise_contents table = table_lines table"
    by (simp only: pairwise_contents_def table_lines_def)
  then show ?thesis
    using table_loop_lines [of table header_blank out] by auto
qed

theorem flag_is_pair_local_witness:
  "snd (table_loop
     [[ustr '' '', ustr ''X''], [ustr ''A'', ustr ''C''], [ustr ''None'', ustr ''G'', ustr ''B'', ustr ''T'']]
     (True, [])) = [ustr ''>A'', ustr ''C'', ustr ''>B'', ustr ''T''] \<and>
   pairwise_contents
     [[ustr '' '', ustr ''X''], [ustr ''A'', ustr ''C''], [ustr ''None'', ustr ''G'', ustr ''B'', ustr ''T'']] =
     [ustr ''>A'', ustr ''C'', ustr ''>B'', ustr ''T'']"
proof -
  have h: "\<forall>row\<in>set
      [[ustr '' '', ustr ''X''], [ustr ''A'', ustr ''C''], [ustr ''None'', ustr ''G'', ustr ''B'', ustr ''T'']].
      even (length row)"
    by simp
  show ?thesis
    using flag_is_pair_local [OF h, of True "[]"]
    by (simp add: pairwise_contents_def cell_text_def Let_def string_defs)
qed

theorem trailing_name_cell_differs:
  "snd (table_loop [[ustr ''E'']] (False, [])) = [ustr ''>E''] \<and>
   pairwise_contents [[ustr ''E'']] = [] \<and>
   snd (table_loop [[ustr ''E'']] (False, [])) \<noteq> pairwise_contents [[ustr ''E'']]"
  by (simp add: table_loop_def row_loop_def pairwise_contents_def Let_def string_defs)

text \<open>
  C4. Take any table, row \<open>i\<close> and a pair of cells at the even column \<open>j\<close> and at \<open>j + 1\<close>,
  where the name cell, without surrounding white space, is empty or is \<open>none\<close> in any
  letter case. Let \<open>before\<close> be the state of the loops when they reach the sequence cell.
  Processing the sequence cell leaves the lines collected so far as they are, whatever
  the cell holds, and the run on the whole table is the run of the remaining cells and
  rows from that state. Moreover the table without the two cells of the pair is serialized
  to the same lines: the pair gives the output no line.
\<close>

theorem blank_name_drops_sequence:
  assumes "i < length table" and "Suc j < length (table ! i)" and "even j"
    and "strip (table ! i ! j) = [] \<or> lower (strip (table ! i ! j)) = ustr ''none''"
  shows "(let before = fold cell_step (enumerate 0 (take (Suc j) (table ! i)))
                        (table_loop (take i table) st);
             after = cell_step (Suc j, table ! i ! Suc j) before
         in snd after = snd before \<and>
            table_loop table st =
              table_loop (drop (Suc i) table)
                (fold cell_step (enumerate (Suc (Suc j)) (drop (Suc (Suc j)) (table ! i))) after)) \<and>
         snd (table_loop (table[i := take j (table ! i) @ drop (Suc (Suc j)) (table ! i)]) st) =
           snd (table_loop table st)"
  using sequence_cell_after_blank_name [OF assms] table_loop_without_blank_pair [OF assms(1-3)] assms(4)
  by (simp add: cell_text_blank)

theorem blank_name_drops_sequence_witness:
  "snd (table_loop [[ustr ''Sample1'', ustr ''ATCGN''], [ustr '' NoNe '', ustr ''GGCC'']]
     (False, [])) = [ustr ''>Sample1'', ustr ''ATCGN''] \<and>
   snd (table_loop [[ustr ''Sample1'', ustr ''ATCGN''], []] (False, [])) =
     [ustr ''>Sample1'', ustr ''ATCGN'']"
proof -
  let ?T = "[[ustr ''Sample1'', ustr ''ATCGN''], [ustr '' NoNe '', ustr ''GGCC'']]"
  have h1: "1 < length ?T"
    by simp
  have h2: "Suc 0 < length (?T ! 1)"
    by simp
  have h3: "even (0::nat)"
    by simp
  have h4: "strip (?T ! 1 ! 0) = [] \<or> lower (strip (?T ! 1 ! 0)) = ustr ''none''"
    by (simp add: string_defs)
  show ?thesis
    using blank_name_drops_sequence [OF h1 h2 h3 h4, where st = "(False, [])"]
    by (simp add: table_loop_def row_loop_def Let_def string_defs)
qed


section \<open>The decision to save\<close>

text \<open>
  C10. The empty string has no lines and the four checks return no issue on it. Still
  \<open>okay_to_save\<close> is set only when the serializer has emitted at least one line and the
  checks, run on the joined lines, return no issue; for a table it is set exactly when
  the screening found nothing, the serializer emitted a line and the checks found
  nothing. For the table with the single row (empty, GGCC) the serializer emits nothing,
  \<open>fasta_str\<close> is the empty string, the checks are not run and \<open>okay_to_save\<close> stays
  false.
\<close>

theorem save_decision:
  "splitlines [] = [] \<and> check_fasta_file [] = [] \<and>
   (okay_to_save (main uploaded_file) \<longrightarrow>
      fasta_contents (main uploaded_file) \<noteq> [] \<and> issues (main uploaded_file) = Some []) \<and>
   (okay_to_save (main (Sheet table)) \<longleftrightarrow>
      \<not> snd (screen_cells table) \<and> snd (table_loop table (False, [])) \<noteq> [] \<and>
      check_fasta_file (join [10] (snd (table_loop table (False, [])))) = []) \<and>
   fasta_str (main (Sheet [[[], ustr ''GGCC'']])) = Some [] \<and>
   issues (main (Sheet [[[], ustr ''GGCC'']])) = None \<and>
   \<not> okay_to_save (main (Sheet [[[], ustr ''GGCC'']]))"
proof -
  have "splitlines [] = []" "check_fasta_file [] = []"
    by (simp_all add: check_defs splitlines_def)
  moreover have "okay_to_save (main uploaded_file) \<longrightarrow>
      fasta_contents (main uploaded_file) \<noteq> [] \<and> issues (main uploaded_file) = Some []"
    by (auto simp: main_def Let_def split: prod.splits if_splits)
  moreover have "okay_to_save (main (Sheet table)) \<longleftrightarrow>
      \<not> snd (screen_cells table) \<and> snd (table_loop table (False, [])) \<noteq> [] \<and>
      check_fasta_file (join [10] (snd (table_loop table (False, [])))) = []"
    by (cases "table = []") (auto simp: main_def Let_def table_loop_def split: prod.splits)
  moreover have "fasta_str (main (Sheet [[[], ustr ''GGCC'']])) = Some [] \<and>
      issues (main (Sheet [[[], ustr ''GGCC'']])) = None \<and>
      \<not> okay_to_save (main (Sheet [[[], ustr ''GGCC'']]))"
    by (simp add: main_defs string_defs)
  ultimately show ?thesis by blast
qed

theorem save_decision_witness:
  "okay_to_save (main (Sheet [[ustr ''Sample1'', ustr ''ATCGN'']])) \<and>
   fasta_contents (main (Sheet [[ustr ''Sample1'', ustr ''ATCGN'']])) =
     [ustr ''>Sample1'', ustr ''ATCGN''] \<and>
   issues (main (Sheet [[ustr ''Sample1'', ustr ''ATCGN'']])) = Some []"
  using save_decision [of "Sheet [[ustr ''Sample1'', ustr ''ATCGN'']]"]
  by (simp add: main_defs check_defs string_defs)

end
